theory Spec2Isabelle
  imports Complex_Main "HOL-Library.Sublist" "HOL-Library.Multiset"
    "HOL-Library.List_Lexorder" "HOL-Library.Char_ord" "HOL-Library.AList"
begin

section \<open>Built-in string and array operations used by the command subsystem\<close>

text \<open>
  A string of the program is a list of UTF-16 code units; the model covers the code
  units 0 to 255 (the Latin-1 range), one \<^typ>\<open>char\<close> each, so that \<open>length\<close>, indexing
  and substring tests count what the program counts.
\<close>

definition isWhiteSpace :: "char \<Rightarrow> bool" where
  "isWhiteSpace c = (of_char c \<in> {9, 10, 11, 12, 13, 32, 160 :: nat})"

definition trim :: "string \<Rightarrow> string" where
  "trim s = rev (dropWhile isWhiteSpace (rev (dropWhile isWhiteSpace s)))"

definition toLowerChar :: "char \<Rightarrow> char" where
  "toLowerChar c =
     (let n = (of_char c :: nat)
      in if (65 \<le> n \<and> n \<le> 90) \<or> (192 \<le> n \<and> n \<le> 222 \<and> n \<noteq> 215)
         then char_of (n + 32) else c)"

definition toLowerCase :: "string \<Rightarrow> string" where
  "toLowerCase s = map toLowerChar s"

definition startsWith :: "string \<Rightarrow> string \<Rightarrow> bool" where
  "startsWith s q = prefix q s"

definition includesStr :: "string \<Rightarrow> string \<Rightarrow> bool" where
  "includesStr s q = sublist q s"

fun join :: "string \<Rightarrow> string list \<Rightarrow> string" where
  "join sep [] = []"
| "join sep [x] = x"
| "join sep (x # y # ys) = x @ sep @ join sep (y # ys)"

text \<open>
  \<open>Array.prototype.sort\<close> with a comparator is a stable sort: an element goes before
  the first later element that the comparator does not put in front of it.
\<close>

fun insertBy :: "('a \<Rightarrow> 'a \<Rightarrow> int) \<Rightarrow> 'a \<Rightarrow> 'a list \<Rightarrow> 'a list" where
  "insertBy cmp x [] = [x]"
| "insertBy cmp x (y # ys) = (if cmp x y \<le> 0 then x # y # ys else y # insertBy cmp x ys)"

definition arraySort :: "('a \<Rightarrow> 'a \<Rightarrow> int) \<Rightarrow> 'a list \<Rightarrow> 'a list" where
  "arraySort cmp xs = foldr (insertBy cmp) xs []"

text \<open>
  \<open>Array.prototype.slice(start, end)\<close> on integer arguments: a negative index counts
  from the end, and both are clamped to the array.
\<close>

definition sliceIndex :: "int \<Rightarrow> nat \<Rightarrow> nat" where
  "sliceIndex i len = (if i < 0 then nat (max (int len + i) 0) else min (nat i) len)"

definition slice :: "int \<Rightarrow> int \<Rightarrow> 'a list \<Rightarrow> 'a list" where
  "slice start end_ix xs =
     (let k = sliceIndex start (length xs); final = sliceIndex end_ix (length xs)
      in take (final - k) (drop k xs))"

section \<open>Data model (components/commands/types)\<close>

datatype CommandCategory =
  Theme | File | Edit | View | Search | Git | Terminal | Debug | Help | Extension | General

text \<open>A category is a string at run time; \<open>categoryString\<close> gives it.\<close>

fun categoryString :: "CommandCategory \<Rightarrow> string" where
  "categoryString Theme = ''theme''"
| "categoryString File = ''file''"
| "categoryString Edit = ''edit''"
| "categoryString View = ''view''"
| "categoryString Search = ''search''"
| "categoryString Git = ''git''"
| "categoryString Terminal = ''terminal''"
| "categoryString Debug = ''debug''"
| "categoryString Help = ''help''"
| "categoryString Extension = ''extension''"
| "categoryString General = ''general''"

datatype KeyModifier = Ctrl | Shift | Alt | Meta

fun modifierString :: "KeyModifier \<Rightarrow> string" where
  "modifierString Ctrl = ''ctrl''"
| "modifierString Shift = ''shift''"
| "modifierString Alt = ''alt''"
| "modifierString Meta = ''meta''"

record KeyboardShortcut =
  key :: string
  modifiers :: "KeyModifier list option"
  displayText :: "string option"

text \<open>Values of type \<open>any\<close> (command arguments) and thrown values.\<close>

datatype jsany = JNull | JBool bool | JNum int | JStr string

datatype error = Error string

text \<open>
  An action is modelled by what a call of it yields: \<open>execute\<close> returns normally
  (\<open>Inr ()\<close>) or throws, or rejects the promise it returned (\<open>Inl e\<close>). What the action
  does outside the registry is not part of the model, and an action does not call back
  into the registry. Priorities and scores are integers.
\<close>

record CommandAction =
  action_id :: string
  execute :: "jsany option \<Rightarrow> error + unit"
  canExecute :: "(unit \<Rightarrow> bool) option"

record Command =
  cmd_id :: string
  title :: string
  description :: "string option"
  category :: CommandCategory
  cmd_keywords :: "string list option"
  icon :: "string option"
  keybinding :: "KeyboardShortcut option"
  action :: CommandAction
  when_expr :: "string option"
  priority :: "int option"
  hidden :: "bool option"

datatype ExecSource = Palette | Keyboard | Menu | Programmatic

record CommandExecutionContext =
  commandId :: string
  timestamp :: int
  source :: ExecSource
  args :: "jsany option"

text \<open>What the subsystem writes to the console, and the calls it makes to observers.\<close>

datatype event =
    ConsoleWarn string
  | ConsoleError string "error option"
  | ListenerCalled nat string "jsany option"

definition quoted :: "string \<Rightarrow> string" where
  "quoted s = [CHR 0x22] @ s @ [CHR 0x22]"

text \<open>\<open>priority || 0\<close> and the truthiness of \<open>hidden\<close>.\<close>

definition priorityOr0 :: "Command \<Rightarrow> int" where
  "priorityOr0 c = (case priority c of None \<Rightarrow> 0 | Some p \<Rightarrow> p)"

definition isHidden :: "Command \<Rightarrow> bool" where
  "isHidden c = (case hidden c of None \<Rightarrow> False | Some h \<Rightarrow> h)"

section \<open>Command history (CommandHistoryImpl)\<close>

record CommandHistoryImpl =
  entries :: "CommandExecutionContext list"

definition maxEntries :: nat where
  "maxEntries = 100"

definition add :: "CommandExecutionContext \<Rightarrow> CommandHistoryImpl \<Rightarrow> CommandHistoryImpl" where
  "add context h =
     (let es = context # entries h
      in if length es > maxEntries then h\<lparr>entries := slice 0 (int maxEntries) es\<rparr>
         else h\<lparr>entries := es\<rparr>)"

definition getRecent :: "int option \<Rightarrow> CommandHistoryImpl \<Rightarrow> CommandExecutionContext list" where
  "getRecent cnt h =
     slice 0 (case cnt of None \<Rightarrow> 10 | Some n \<Rightarrow> n) (entries h)"

section \<open>Command registry (CommandRegistryImpl)\<close>

text \<open>
  A \<open>Map\<close> iterates in insertion order and holds one entry per key: an association
  list, where \<open>set\<close> of a new key appends (\<open>AList.update\<close>) and \<open>delete\<close> removes
  (\<open>AList.delete\<close>). An observer is a callback with its identity; called, it returns
  (\<open>None\<close>) or throws (\<open>Some e\<close>).
\<close>

type_synonym listener = "Command \<Rightarrow> jsany option \<Rightarrow> error option"

record CommandRegistryImpl =
  commands :: "(string \<times> Command) list"
  history :: CommandHistoryImpl
  listeners :: "(nat \<times> listener) list"

definition has :: "('k \<times> 'v) list \<Rightarrow> 'k \<Rightarrow> bool" where
  "has m k = (map_of m k \<noteq> None)"

definition register :: "Command \<Rightarrow> CommandRegistryImpl \<Rightarrow> CommandRegistryImpl \<times> event list" where
  "register command s =
     (if has (commands s) (cmd_id command)
      then (s, [ConsoleWarn (''Command with ID '' @ quoted (cmd_id command) @ '' is already registered'')])
      else (s\<lparr>commands := AList.update (cmd_id command) command (commands s)\<rparr>, []))"

fun registerAll :: "Command list \<Rightarrow> CommandRegistryImpl \<Rightarrow> CommandRegistryImpl \<times> event list" where
  "registerAll [] s = (s, [])"
| "registerAll (command # rest) s =
     (let (s1, e1) = register command s; (s2, e2) = registerAll rest s1 in (s2, e1 @ e2))"

definition unregister :: "string \<Rightarrow> CommandRegistryImpl \<Rightarrow> CommandRegistryImpl" where
  "unregister cid s = s\<lparr>commands := AList.delete cid (commands s)\<rparr>"

definition get :: "string \<Rightarrow> CommandRegistryImpl \<Rightarrow> Command option" where
  "get cid s = map_of (commands s) cid"

definition getAll :: "CommandRegistryImpl \<Rightarrow> Command list" where
  "getAll s =
     arraySort (\<lambda>a b. priorityOr0 b - priorityOr0 a)
       (filter (\<lambda>command. \<not> isHidden command) (map snd (commands s)))"

definition getByCategory :: "CommandCategory \<Rightarrow> CommandRegistryImpl \<Rightarrow> Command list" where
  "getByCategory cat s = filter (\<lambda>command. category command = cat) (getAll s)"

text \<open>
  \<open>calculateFuzzyScore\<close>: the loop walks the text with the loop variables \<open>queryIndex\<close>
  and \<open>score\<close>; it stops at the end of the text or when the query is used up. The
  quotient is an exact fraction; both numbers are lengths of strings, for which the
  comparison with one half and the floor of twenty times the quotient come out the
  same. For an empty query and an empty text the program divides 0 by 0; \<open>search\<close>
  never calls it so, its query being non-empty.
\<close>

fun fuzzyWalk :: "string \<Rightarrow> string \<Rightarrow> nat \<Rightarrow> nat \<Rightarrow> nat \<times> nat" where
  "fuzzyWalk query [] queryIndex score = (score, queryIndex)"
| "fuzzyWalk query (t # text) queryIndex score =
     (if queryIndex < length query
      then (if t = query ! queryIndex
            then fuzzyWalk query text (queryIndex + 1) (score + 1)
            else fuzzyWalk query text queryIndex score)
      else (score, queryIndex))"

definition calculateFuzzyScore :: "string \<Rightarrow> string \<Rightarrow> rat" where
  "calculateFuzzyScore query text =
     (case fuzzyWalk query text 0 0 of
        (score, queryIndex) \<Rightarrow>
          if queryIndex = length query then of_nat score / of_nat (length text) else 0)"

text \<open>The body of the loop of \<open>search\<close> for one command: its score.\<close>

definition scoreCommand :: "string \<Rightarrow> Command \<Rightarrow> int" where
  "scoreCommand normalizedQuery command =
     (let title' = toLowerCase (title command);
          description' = (case description command of None \<Rightarrow> [] | Some d \<Rightarrow> toLowerCase d);
          keywords' = (case cmd_keywords command of None \<Rightarrow> []
                       | Some ks \<Rightarrow> toLowerCase (join '' '' ks));
          score0 = (if title' = normalizedQuery then 100
                    else if startsWith title' normalizedQuery then 80
                    else if includesStr title' normalizedQuery then 60
                    else 0);
          score1 = (if includesStr description' normalizedQuery then score0 + 40 else score0);
          score2 = (if includesStr keywords' normalizedQuery then score1 + 30 else score1);
          score3 = (if includesStr (toLowerCase (categoryString (category command))) normalizedQuery
                    then score2 + 20 else score2)
      in if score3 = 0
         then (let fuzzyScore = calculateFuzzyScore normalizedQuery title'
               in if fuzzyScore > 1 / 2 then \<lfloor>fuzzyScore * 20\<rfloor> else score3)
         else score3)"

fun searchLoop :: "string \<Rightarrow> Command list \<Rightarrow> (Command \<times> int) list" where
  "searchLoop normalizedQuery [] = []"
| "searchLoop normalizedQuery (command # rest) =
     (if isHidden command then searchLoop normalizedQuery rest
      else (let score = scoreCommand normalizedQuery command
            in if score > 0 then (command, score) # searchLoop normalizedQuery rest
               else searchLoop normalizedQuery rest))"

text \<open>
  The comparator of the final sort. \<open>localeCompare\<close> belongs to the platform: it is the
  parameter \<open>lc\<close>.
\<close>

definition searchCompare ::
  "(string \<Rightarrow> string \<Rightarrow> int) \<Rightarrow> Command \<times> int \<Rightarrow> Command \<times> int \<Rightarrow> int" where
  "searchCompare lc a b =
     (if snd a \<noteq> snd b then snd b - snd a
      else if priorityOr0 (fst a) \<noteq> priorityOr0 (fst b)
           then priorityOr0 (fst b) - priorityOr0 (fst a)
           else lc (title (fst a)) (title (fst b)))"

definition search ::
  "(string \<Rightarrow> string \<Rightarrow> int) \<Rightarrow> string \<Rightarrow> CommandRegistryImpl \<Rightarrow> Command list" where
  "search lc query s =
     (if trim query = [] then getAll s
      else (let normalizedQuery = trim (toLowerCase query);
                results = searchLoop normalizedQuery (map snd (commands s))
            in map fst (arraySort (searchCompare lc) results)))"

fun notifyListeners :: "(nat \<times> listener) list \<Rightarrow> Command \<Rightarrow> jsany option \<Rightarrow> event list" where
  "notifyListeners [] command arg = []"
| "notifyListeners ((lid, l) # rest) command arg =
     ListenerCalled lid (cmd_id command) arg #
     (case l command arg of None \<Rightarrow> []
      | Some err \<Rightarrow> [ConsoleError ''Command listener error:'' (Some err)]) @
     notifyListeners rest command arg"

text \<open>
  \<open>executeCommand\<close> returns the settlement of its promise (\<open>Inl e\<close>: rejected with \<open>e\<close>),
  the registry afterwards and what happened on the way. \<open>now\<close> is \<open>Date.now()\<close>.
\<close>

definition executeCommand ::
  "string \<Rightarrow> jsany option \<Rightarrow> ExecSource option \<Rightarrow> int \<Rightarrow> CommandRegistryImpl
     \<Rightarrow> (error + unit) \<times> CommandRegistryImpl \<times> event list" where
  "executeCommand cid arg src now s =
     (case get cid s of
        None \<Rightarrow> (Inr (), s, [ConsoleError (''Command with ID '' @ quoted cid @ '' not found'') None])
      | Some command \<Rightarrow>
          if (case canExecute (action command) of None \<Rightarrow> False | Some can \<Rightarrow> \<not> can ())
          then (Inr (), s,
                [ConsoleWarn (''Command '' @ quoted cid @ '' cannot be executed at this time'')])
          else (let context = \<lparr>commandId = cid, timestamp = now,
                                source = (case src of None \<Rightarrow> Programmatic | Some x \<Rightarrow> x),
                                args = arg\<rparr>
                in case execute (action command) arg of
                     Inl err \<Rightarrow>
                       (Inl err, s,
                        [ConsoleError (''Error executing command '' @ quoted cid @ '':'') (Some err)])
                   | Inr u \<Rightarrow>
                       (Inr (), s\<lparr>history := add context (history s)\<rparr>,
                        notifyListeners (listeners s) command arg)))"

definition onCommandExecute :: "nat \<times> listener \<Rightarrow> CommandRegistryImpl \<Rightarrow> CommandRegistryImpl" where
  "onCommandExecute l s =
     (if has (listeners s) (fst l) then s else s\<lparr>listeners := listeners s @ [l]\<rparr>)"

section \<open>Keyboard manager (KeyboardManagerImpl)\<close>

record KeyboardEvent =
  key_ev :: string
  ctrlKey :: bool
  shiftKey :: bool
  altKey :: bool
  metaKey :: bool

record KeyBinding =
  shortcut :: KeyboardShortcut
  binding_commandId :: string
  when_guard :: "(unit \<Rightarrow> bool) option"

record KeyboardManagerImpl =
  keyBindings :: "(string \<times> KeyBinding) list"
  isEnabled :: bool

definition modifiersOrEmpty :: "KeyboardShortcut \<Rightarrow> KeyModifier list" where
  "modifiersOrEmpty sc = (case modifiers sc of None \<Rightarrow> [] | Some ms \<Rightarrow> ms)"

definition generateShortcutKey :: "KeyboardShortcut \<Rightarrow> string" where
  "generateShortcutKey sc =
     (let sortedModifiers = sort (map modifierString (modifiersOrEmpty sc))
      in join ''+'' sortedModifiers @ ''+'' @ toLowerCase (key sc))"

definition registerShortcut ::
  "string \<Rightarrow> KeyboardShortcut \<Rightarrow> (unit \<Rightarrow> bool) option \<Rightarrow> KeyboardManagerImpl
     \<Rightarrow> KeyboardManagerImpl \<times> event list" where
  "registerShortcut cid sc guard m =
     (let k = generateShortcutKey sc
      in if has (keyBindings m) k
         then (m, [ConsoleWarn (''Keyboard shortcut '' @ quoted k @ '' is already registered'')])
         else (m\<lparr>keyBindings :=
                   AList.update k \<lparr>shortcut = sc, binding_commandId = cid, when_guard = guard\<rparr>
                     (keyBindings m)\<rparr>, []))"

definition unregisterShortcut :: "KeyboardShortcut \<Rightarrow> KeyboardManagerImpl \<Rightarrow> KeyboardManagerImpl" where
  "unregisterShortcut sc m = m\<lparr>keyBindings := AList.delete (generateShortcutKey sc) (keyBindings m)\<rparr>"

fun registerEach :: "Command list \<Rightarrow> KeyboardManagerImpl \<Rightarrow> KeyboardManagerImpl \<times> event list" where
  "registerEach [] m = (m, [])"
| "registerEach (command # rest) m =
     (case keybinding command of
        None \<Rightarrow> registerEach rest m
      | Some kb \<Rightarrow>
          (let (m1, e1) = registerShortcut (cmd_id command) kb None m;
               (m2, e2) = registerEach rest m1
           in (m2, e1 @ e2)))"

definition registerCommandShortcuts ::
  "CommandRegistryImpl \<Rightarrow> KeyboardManagerImpl \<Rightarrow> KeyboardManagerImpl \<times> event list" where
  "registerCommandShortcuts reg m = registerEach (getAll reg) m"

definition matchesShortcut :: "KeyboardEvent \<Rightarrow> KeyboardShortcut \<Rightarrow> bool" where
  "matchesShortcut event sc =
     (let mods = modifiersOrEmpty sc
      in if toLowerCase (key_ev event) \<noteq> toLowerCase (key sc) then False
         else (let hasCtrl = Ctrl \<in> set mods;
                   hasShift = Shift \<in> set mods;
                   hasAlt = Alt \<in> set mods;
                   hasMeta = Meta \<in> set mods
               in ctrlKey event = hasCtrl \<and> shiftKey event = hasShift \<and>
                  altKey event = hasAlt \<and> metaKey event = hasMeta))"

section \<open>Notions of the specification\<close>

text \<open>The modifier flags of a key event, as the set of modifiers held down.\<close>

fun modifierFlag :: "KeyModifier \<Rightarrow> KeyboardEvent \<Rightarrow> bool" where
  "modifierFlag Ctrl event = ctrlKey event"
| "modifierFlag Shift event = shiftKey event"
| "modifierFlag Alt event = altKey event"
| "modifierFlag Meta event = metaKey event"

definition eventModifiers :: "KeyboardEvent \<Rightarrow> KeyModifier set" where
  "eventModifiers event = set (filter (\<lambda>m. modifierFlag m event) [Ctrl, Shift, Alt, Meta])"

text \<open>Whether the guard of a command lets an execution through.\<close>

definition guardPasses :: "Command \<Rightarrow> bool" where
  "guardPasses command = (case canExecute (action command) of None \<Rightarrow> True | Some can \<Rightarrow> can ())"

fun isListenerCalled :: "event \<Rightarrow> bool" where
  "isListenerCalled (ListenerCalled lid cid arg) = True"
| "isListenerCalled (ConsoleWarn msg) = False"
| "isListenerCalled (ConsoleError msg err) = False"

text \<open>A history after a sequence of \<open>add\<close>s, oldest first, from the empty history.\<close>

definition emptyHistory :: CommandHistoryImpl where
  "emptyHistory = \<lparr>entries = []\<rparr>"

definition addAll :: "CommandExecutionContext list \<Rightarrow> CommandHistoryImpl \<Rightarrow> CommandHistoryImpl" where
  "addAll cs h = foldl (\<lambda>h' c. add c h') h cs"

text \<open>
  A run of executions: calls of \<open>executeCommand\<close> (id, arguments, source, time of the
  call), each awaited before the next, threaded through the registry. A call goes
  through when its command is registered, the guard lets it pass and the action returns;
  \<open>callContext\<close> is the record such a call writes.
\<close>

type_synonym call = "string \<times> jsany option \<times> ExecSource option \<times> int"

fun executeAll :: "call list \<Rightarrow> CommandRegistryImpl \<Rightarrow> CommandRegistryImpl" where
  "executeAll [] s = s"
| "executeAll ((cid, arg, src, now) # rest) s =
     executeAll rest (fst (snd (executeCommand cid arg src now s)))"

fun callSucceeds :: "CommandRegistryImpl \<Rightarrow> call \<Rightarrow> bool" where
  "callSucceeds s (cid, arg, src, now) =
     (case get cid s of
        None \<Rightarrow> False
      | Some command \<Rightarrow>
          guardPasses command \<and>
          (case execute (action command) arg of Inl err \<Rightarrow> False | Inr u \<Rightarrow> True))"

fun callContext :: "call \<Rightarrow> CommandExecutionContext" where
  "callContext (cid, arg, src, now) =
     \<lparr>commandId = cid, timestamp = now,
      source = (case src of None \<Rightarrow> Programmatic | Some x \<Rightarrow> x), args = arg\<rparr>"

definition executedContexts :: "CommandRegistryImpl \<Rightarrow> call list \<Rightarrow> CommandExecutionContext list" where
  "executedContexts s calls = map callContext (filter (callSucceeds s) calls)"

text \<open>
  The score of a command as the specification words it: the title rule, the additive
  rules for description, keywords and category, and the fuzzy pass for a command the
  rules give nothing.
\<close>

definition titleScore :: "string \<Rightarrow> Command \<Rightarrow> int" where
  "titleScore q c =
     (if toLowerCase (title c) = q then 100
      else if prefix q (toLowerCase (title c)) then 80
      else if sublist q (toLowerCase (title c)) then 60
      else 0)"

definition bonusScore :: "string \<Rightarrow> Command \<Rightarrow> int" where
  "bonusScore q c =
     (case description c of None \<Rightarrow> 0
      | Some d \<Rightarrow> if sublist q (toLowerCase d) then 40 else 0) +
     (case cmd_keywords c of None \<Rightarrow> 0
      | Some ks \<Rightarrow> if sublist q (toLowerCase (join '' '' ks)) then 30 else 0) +
     (if sublist q (toLowerCase (categoryString (category c))) then 20 else 0)"

definition ruleScore :: "string \<Rightarrow> Command \<Rightarrow> int" where
  "ruleScore q c = titleScore q c + bonusScore q c"

definition fuzzyPass :: "string \<Rightarrow> Command \<Rightarrow> int" where
  "fuzzyPass q c =
     (let rawScore = calculateFuzzyScore q (toLowerCase (title c))
      in if rawScore > 1 / 2 then \<lfloor>rawScore * 20\<rfloor> else 0)"

definition finalScore :: "string \<Rightarrow> Command \<Rightarrow> int" where
  "finalScore q c = (if ruleScore q c = 0 then fuzzyPass q c else ruleScore q c)"

text \<open>
  The order of the result: descending score, then descending priority, then the order
  of the titles under \<open>localeCompare\<close>.
\<close>

definition rankedBefore :: "(string \<Rightarrow> string \<Rightarrow> int) \<Rightarrow> string \<Rightarrow> Command \<Rightarrow> Command \<Rightarrow> bool" where
  "rankedBefore lc q a b =
     (finalScore q b < finalScore q a \<or>
      (finalScore q a = finalScore q b \<and>
       (priorityOr0 b < priorityOr0 a \<or>
        (priorityOr0 a = priorityOr0 b \<and> lc (title a) (title b) \<le> 0))))"

text \<open>
  A comparator of the platform orders the strings consistently: of two strings one is
  not after the other, and the order is transitive.
\<close>

definition consistentCompare :: "(string \<Rightarrow> string \<Rightarrow> int) \<Rightarrow> bool" where
  "consistentCompare lc =
     ((\<forall>a b. 0 < lc a b \<longrightarrow> lc b a \<le> 0) \<and>
      (\<forall>a b c. lc a b \<le> 0 \<and> lc b c \<le> 0 \<longrightarrow> lc a c \<le> 0))"

text \<open>The non-hidden commands of a registry, in the order of the map.\<close>

definition visibleCommands :: "CommandRegistryImpl \<Rightarrow> Command list" where
  "visibleCommands s = filter (\<lambda>c. \<not> isHidden c) (map snd (commands s))"

section \<open>Sample data\<close>

definition noAction :: "string \<Rightarrow> CommandAction" where
  "noAction i = \<lparr>action_id = i, execute = (\<lambda>arg. Inr ()), canExecute = None\<rparr>"

definition failingAction :: "string \<Rightarrow> CommandAction" where
  "failingAction i = \<lparr>action_id = i, execute = (\<lambda>arg. Inl (Error ''disk full'')), canExecute = None\<rparr>"

definition guardedAction :: "string \<Rightarrow> CommandAction" where
  "guardedAction i = \<lparr>action_id = i, execute = (\<lambda>arg. Inr ()), canExecute = Some (\<lambda>u. False)\<rparr>"

definition mkCommand :: "string \<Rightarrow> string \<Rightarrow> int option \<Rightarrow> Command" where
  "mkCommand i t p =
     \<lparr>cmd_id = i, title = t, description = None, category = File, cmd_keywords = None,
      icon = None, keybinding = None, action = noAction i, when_expr = None,
      priority = p, hidden = None\<rparr>"

definition emptyRegistry :: CommandRegistryImpl where
  "emptyRegistry = \<lparr>commands = [], history = emptyHistory, listeners = []\<rparr>"

definition emptyManager :: KeyboardManagerImpl where
  "emptyManager = \<lparr>keyBindings = [], isEnabled = True\<rparr>"

definition saveCommand :: Command where
  "saveCommand = mkCommand ''file.save'' ''Save'' (Some 95)"

definition saveAsCommand :: Command where
  "saveAsCommand = mkCommand ''file.saveAs'' ''Save As'' (Some 70)"

definition saveRegistry :: CommandRegistryImpl where
  "saveRegistry = fst (registerAll [saveCommand, saveAsCommand] emptyRegistry)"

definition ctrlS :: KeyboardShortcut where
  "ctrlS = \<lparr>key = ''s'', modifiers = Some [Ctrl], displayText = None\<rparr>"

definition plainS :: KeyboardShortcut where
  "plainS = \<lparr>key = ''S'', modifiers = None, displayText = None\<rparr>"

definition ctrlSEvent :: KeyboardEvent where
  "ctrlSEvent = \<lparr>key_ev = ''s'', ctrlKey = True, shiftKey = False, altKey = False, metaKey = False\<rparr>"

definition dupSave :: Command where
  "dupSave = mkCommand ''file.save'' ''Save Everything'' None"

definition ctrlSUpper :: KeyboardShortcut where
  "ctrlSUpper = \<lparr>key = ''S'', modifiers = Some [Ctrl], displayText = Some ''Ctrl+S''\<rparr>"

definition ctrlSManager :: KeyboardManagerImpl where
  "ctrlSManager = fst (registerShortcut ''file.save'' ctrlS None emptyManager)"

definition exportCommand :: Command where
  "exportCommand = (mkCommand ''file.export'' ''Export'' None)\<lparr>action := failingAction ''file.export''\<rparr>"

definition closeCommand :: Command where
  "closeCommand = (mkCommand ''file.close'' ''Close'' None)\<lparr>action := guardedAction ''file.close''\<rparr>"

definition observer :: "nat \<times> listener" where
  "observer = (0, \<lambda>command arg. None)"

definition observedRegistry :: CommandRegistryImpl where
  "observedRegistry =
     onCommandExecute observer
       (fst (registerAll
          [saveCommand, exportCommand, closeCommand] emptyRegistry))"

definition hiddenCommand :: Command where
  "hiddenCommand = (mkCommand ''dev.reload'' ''Reload'' None)\<lparr>keybinding := Some ctrlS, hidden := Some True\<rparr>"

definition hiddenRegistry :: CommandRegistryImpl where
  "hiddenRegistry = fst (register hiddenCommand emptyRegistry)"

definition sampleContext :: "nat \<Rightarrow> CommandExecutionContext" where
  "sampleContext n = \<lparr>commandId = ''file.save'', timestamp = int n, source = Palette, args = None\<rparr>"

definition saveCall :: "nat \<Rightarrow> call" where
  "saveCall n = (''file.save'', None, Some Palette, int n)"

definition mixedCalls :: "call list" where
  "mixedCalls =
     [saveCall 1, (''file.export'', None, None, 2), (''file.print'', None, None, 3),
      (''file.close'', None, Some Menu, 4), (''file.save'', Some (JNum 7), None, 5)]"

text \<open>A sample comparator: the order of the code units.\<close>

definition codeUnitCompare :: "string \<Rightarrow> string \<Rightarrow> int" where
  "codeUnitCompare a b = (if a < b then - 1 else if a = b then 0 else 1)"

definition autosaveCommand :: Command where
  "autosaveCommand =
     (mkCommand ''file.autosave'' ''Autosave'' None)
       \<lparr>description := Some ''Save files automatically'',
        cmd_keywords := Some [''save'', ''auto'']\<rparr>"

definition saveAllCommand :: Command where
  "saveAllCommand = mkCommand ''file.saveAll'' ''Save All'' (Some 70)"

definition openCommand :: Command where
  "openCommand = mkCommand ''file.open'' ''Open'' (Some 90)"

definition saveFileCommand :: Command where
  "saveFileCommand = mkCommand ''file.saveFile'' ''Save File'' None"

definition paletteRegistry :: CommandRegistryImpl where
  "paletteRegistry =
     fst (registerAll
       [saveAsCommand, hiddenCommand, saveAllCommand, openCommand, saveCommand, autosaveCommand]
       emptyRegistry)"

definition fuzzyRegistry :: CommandRegistryImpl where
  "fuzzyRegistry = fst (registerAll [saveFileCommand, openCommand] emptyRegistry)"

section \<open>Properties\<close>

subsection \<open>Helper facts\<close>

lemma slice_0_nat: "slice 0 (int n) xs = take n xs"
  by (simp add: slice_def sliceIndex_def Let_def min_def)

lemma take_Cons_take: "take n (c # take n xs) = take n (c # xs)"
  by (cases n) (simp_all add: min_def)

lemma entries_add: "entries (add c h) = take maxEntries (c # entries h)"
  by (simp add: add_def Let_def slice_0_nat)

lemma entries_addAll_empty: "entries (addAll cs emptyHistory) = take maxEntries (rev cs)"
proof (induction cs rule: rev_induct)
  case Nil
  show ?case by (simp add: addAll_def emptyHistory_def)
next
  case (snoc c cs)
  have "entries (addAll (cs @ [c]) emptyHistory) = take maxEntries (c # take maxEntries (rev cs))"
    using snoc.IH by (simp add: addAll_def entries_add)
  also have "\<dots> = take maxEntries (c # rev cs)"
    by (rule take_Cons_take)
  finally show ?case by simp
qed

subsection \<open>Key events against bindings\<close>

text \<open>
  C6. A key event matches a shortcut exactly when the base keys are equal without
  regard to case and the set of modifiers held down is the set of modifiers of the
  shortcut; so an event with the control key down does not match a shortcut without
  modifiers.
\<close>

theorem matchesShortcut_exact:
  "(matchesShortcut event sc \<longleftrightarrow>
      toLowerCase (key_ev event) = toLowerCase (key sc) \<and>
      eventModifiers event = set (modifiersOrEmpty sc)) \<and>
   (ctrlKey event \<and> set (modifiersOrEmpty sc) = {} \<longrightarrow> \<not> matchesShortcut event sc)"
proof -
  have flags: "eventModifiers event = set (modifiersOrEmpty sc) \<longleftrightarrow>
      (\<forall>m. modifierFlag m event = (m \<in> set (modifiersOrEmpty sc)))"
    (is "?L \<longleftrightarrow> ?R")
  proof
    assume l: ?L
    show ?R
    proof
      fix m
      have "m \<in> eventModifiers event \<longleftrightarrow> modifierFlag m event"
        by (cases m) (auto simp: eventModifiers_def)
      with l show "modifierFlag m event = (m \<in> set (modifiersOrEmpty sc))" by simp
    qed
  next
    assume r: ?R
    have "m \<in> eventModifiers event \<longleftrightarrow> modifierFlag m event" for m
      by (cases m) (auto simp: eventModifiers_def)
    with r show ?L by auto
  qed
  have all4: "(\<forall>m. modifierFlag m event = (m \<in> set (modifiersOrEmpty sc))) \<longleftrightarrow>
      ctrlKey event = (Ctrl \<in> set (modifiersOrEmpty sc)) \<and>
      shiftKey event = (Shift \<in> set (modifiersOrEmpty sc)) \<and>
      altKey event = (Alt \<in> set (modifiersOrEmpty sc)) \<and>
      metaKey event = (Meta \<in> set (modifiersOrEmpty sc))"
    (is "?A \<longleftrightarrow> ?B")
  proof
    assume a: ?A
    from a [rule_format, of Ctrl] a [rule_format, of Shift] a [rule_format, of Alt]
      a [rule_format, of Meta]
    show ?B by simp
  next
    assume b: ?B
    show ?A
    proof
      fix m
      from b show "modifierFlag m event = (m \<in> set (modifiersOrEmpty sc))"
        by (cases m) simp_all
    qed
  qed
  have main: "matchesShortcut event sc \<longleftrightarrow>
      toLowerCase (key_ev event) = toLowerCase (key sc) \<and>
      eventModifiers event = set (modifiersOrEmpty sc)"
    unfolding flags all4 by (simp add: matchesShortcut_def Let_def)
  have "\<not> matchesShortcut event sc" if "ctrlKey event" "set (modifiersOrEmpty sc) = {}"
    using that unfolding main flags all4 by simp
  with main show ?thesis by blast
qed

theorem matchesShortcut_exact_witness:
  "ctrlKey ctrlSEvent \<and> set (modifiersOrEmpty plainS) = {} \<and>
   toLowerCase (key_ev ctrlSEvent) = toLowerCase (key plainS) \<and>
   \<not> matchesShortcut ctrlSEvent plainS \<and> matchesShortcut ctrlSEvent ctrlS"
proof -
  have h: "ctrlKey ctrlSEvent \<and> set (modifiersOrEmpty plainS) = {}"
    by (simp add: ctrlSEvent_def plainS_def modifiersOrEmpty_def)
  have k: "toLowerCase (key_ev ctrlSEvent) = toLowerCase (key plainS)"
    by code_simp
  have k': "toLowerCase (key_ev ctrlSEvent) = toLowerCase (key ctrlS)"
    by code_simp
  have m: "eventModifiers ctrlSEvent = set (modifiersOrEmpty ctrlS)"
    by (simp add: eventModifiers_def ctrlSEvent_def ctrlS_def modifiersOrEmpty_def)
  from h k k' m matchesShortcut_exact [of ctrlSEvent plainS]
    matchesShortcut_exact [of ctrlSEvent ctrlS]
  show ?thesis by blast
qed

subsection \<open>Registration conflicts\<close>

text \<open>
  C5. Registering a command whose id is already in the command map, or a shortcut
  whose canonical key is already bound, changes nothing: the registry, respectively the
  manager, is returned as it was, and a warning is written. The canonical key does not
  depend on the order of the modifiers or the case of the base key.
\<close>

theorem registration_conflict_noop:
  "(has (commands s) (cmd_id command) \<longrightarrow>
      register command s =
        (s, [ConsoleWarn (''Command with ID '' @ quoted (cmd_id command) @ '' is already registered'')])) \<and>
   (has (keyBindings m) (generateShortcutKey sc) \<longrightarrow>
      registerShortcut cid sc guard m =
        (m, [ConsoleWarn (''Keyboard shortcut '' @ quoted (generateShortcutKey sc) @
               '' is already registered'')])) \<and>
   (mset (modifiersOrEmpty sc) = mset (modifiersOrEmpty sc') \<and>
    toLowerCase (key sc) = toLowerCase (key sc') \<longrightarrow>
      generateShortcutKey sc = generateShortcutKey sc')"
proof -
  have "sort (map modifierString (modifiersOrEmpty sc)) = sort (map modifierString (modifiersOrEmpty sc'))"
    if "mset (modifiersOrEmpty sc) = mset (modifiersOrEmpty sc')"
  proof (rule properties_for_sort)
    have "mset (map modifierString (modifiersOrEmpty sc)) = mset (map modifierString (modifiersOrEmpty sc'))"
      using that by (metis mset_map)
    then show "mset (sort (map modifierString (modifiersOrEmpty sc'))) = mset (map modifierString (modifiersOrEmpty sc))"
      by simp
    show "sorted (sort (map modifierString (modifiersOrEmpty sc')))" by simp
  qed
  then have k: "mset (modifiersOrEmpty sc) = mset (modifiersOrEmpty sc') \<and>
    toLowerCase (key sc) = toLowerCase (key sc') \<longrightarrow>
      generateShortcutKey sc = generateShortcutKey sc'"
    by (simp add: generateShortcutKey_def Let_def)
  have r: "has (commands s) (cmd_id command) \<longrightarrow>
      register command s =
        (s, [ConsoleWarn (''Command with ID '' @ quoted (cmd_id command) @ '' is already registered'')])"
    by (simp add: register_def)
  have q: "has (keyBindings m) (generateShortcutKey sc) \<longrightarrow>
      registerShortcut cid sc guard m =
        (m, [ConsoleWarn (''Keyboard shortcut '' @ quoted (generateShortcutKey sc) @
               '' is already registered'')])"
    by (simp add: registerShortcut_def Let_def)
  from k r q show ?thesis by blast
qed

theorem registration_conflict_noop_witness:
  "has (commands saveRegistry) (cmd_id dupSave) \<and>
   fst (register dupSave saveRegistry) = saveRegistry \<and>
   map_option title (get ''file.save'' (fst (register dupSave saveRegistry))) = Some ''Save'' \<and>
   has (keyBindings ctrlSManager) (generateShortcutKey ctrlSUpper) \<and>
   fst (registerShortcut ''file.export'' ctrlSUpper None ctrlSManager) = ctrlSManager"
proof -
  have h1: "has (commands saveRegistry) (cmd_id dupSave)" by code_simp
  have h2: "has (keyBindings ctrlSManager) (generateShortcutKey ctrlSUpper)" by code_simp
  have t: "map_option title (get ''file.save'' saveRegistry) = Some ''Save''" by code_simp
  note c = registration_conflict_noop [of saveRegistry dupSave ctrlSManager ctrlSUpper
      "''file.export''" None ctrlSUpper]
  from c h1 have r: "fst (register dupSave saveRegistry) = saveRegistry"
    by simp
  from c h2 have q: "fst (registerShortcut ''file.export'' ctrlSUpper None ctrlSManager) = ctrlSManager"
    by simp
  show ?thesis
    unfolding r q using h1 h2 t by simp
qed
subsection \<open>Executing commands\<close>

lemma observedRegistry_listeners: "listeners observedRegistry = [observer]"
  by (simp add: observedRegistry_def onCommandExecute_def has_def register_def emptyRegistry_def Let_def)

lemma observedRegistry_commands:
  "commands observedRegistry =
     [(''file.save'', saveCommand), (''file.export'', exportCommand), (''file.close'', closeCommand)]"
  by (simp add: observedRegistry_def onCommandExecute_def has_def register_def emptyRegistry_def
      Let_def saveCommand_def exportCommand_def closeCommand_def mkCommand_def)

text \<open>
  C3. When the action of a registered command throws or rejects (the guard having let
  the execution through), \<open>executeCommand\<close> logs the error and rejects with it; the
  registry is as before, so the history has no new record, and no observer is called.
\<close>

theorem executeCommand_failure:
  "get cid s = Some command \<Longrightarrow> guardPasses command \<Longrightarrow>
   execute (action command) arg = Inl err \<Longrightarrow>
     executeCommand cid arg src now s =
       (Inl err, s, [ConsoleError (''Error executing command '' @ quoted cid @ '':'') (Some err)]) \<and>
     history (fst (snd (executeCommand cid arg src now s))) = history s \<and>
     filter isListenerCalled (snd (snd (executeCommand cid arg src now s))) = []"
  by (auto simp: executeCommand_def guardPasses_def split: option.splits)

theorem executeCommand_failure_witness:
  "listeners observedRegistry = [observer] \<and>
   executeCommand ''file.export'' None (Some Palette) 7 observedRegistry =
     (Inl (Error ''disk full''), observedRegistry,
      [ConsoleError (''Error executing command '' @ quoted ''file.export'' @ '':'')
         (Some (Error ''disk full''))])"
proof -
  have g: "get ''file.export'' observedRegistry = Some exportCommand"
    by (simp add: get_def observedRegistry_commands)
  have p: "guardPasses exportCommand"
    by (simp add: guardPasses_def exportCommand_def failingAction_def)
  have e: "execute (action exportCommand) None = Inl (Error ''disk full'')"
    by (simp add: exportCommand_def failingAction_def)
  from executeCommand_failure [OF g p e, of "Some Palette" 7]
  have "executeCommand ''file.export'' None (Some Palette) 7 observedRegistry =
     (Inl (Error ''disk full''), observedRegistry,
      [ConsoleError (''Error executing command '' @ quoted ''file.export'' @ '':'')
         (Some (Error ''disk full''))])"
    by (rule conjunct1)
  with observedRegistry_listeners show ?thesis by (rule conjI)
qed

text \<open>
  C8. When the id is not registered, or the command has a guard and the guard returns
  false, \<open>executeCommand\<close> returns normally; the registry is as before, so nothing is
  added to the history; the only thing that happens is one line on the console, so no
  observer is called.
\<close>

theorem executeCommand_skipped:
  "(get cid s = None \<longrightarrow>
      executeCommand cid arg src now s =
        (Inr (), s, [ConsoleError (''Command with ID '' @ quoted cid @ '' not found'') None])) \<and>
   (get cid s = Some command \<and> canExecute (action command) = Some can \<and> \<not> can () \<longrightarrow>
      executeCommand cid arg src now s =
        (Inr (), s, [ConsoleWarn (''Command '' @ quoted cid @ '' cannot be executed at this time'')]))"
  by (simp add: executeCommand_def)

theorem executeCommand_skipped_witness:
  "listeners observedRegistry = [observer] \<and>
   executeCommand ''file.print'' None None 7 observedRegistry =
     (Inr (), observedRegistry,
      [ConsoleError (''Command with ID '' @ quoted ''file.print'' @ '' not found'') None]) \<and>
   executeCommand ''file.close'' None None 7 observedRegistry =
     (Inr (), observedRegistry,
      [ConsoleWarn (''Command '' @ quoted ''file.close'' @ '' cannot be executed at this time'')])"
proof -
  have g1: "get ''file.print'' observedRegistry = None"
    by (simp add: get_def observedRegistry_commands)
  have g2: "get ''file.close'' observedRegistry = Some closeCommand"
    by (simp add: get_def observedRegistry_commands)
  have c: "canExecute (action closeCommand) = Some (\<lambda>u. False)"
    by (simp add: closeCommand_def guardedAction_def)
  from g1 executeCommand_skipped
    [of "''file.print''" observedRegistry None None 7 closeCommand "\<lambda>u. False"]
  have a: "executeCommand ''file.print'' None None 7 observedRegistry =
     (Inr (), observedRegistry,
      [ConsoleError (''Command with ID '' @ quoted ''file.print'' @ '' not found'') None])"
    by blast
  from g2 c executeCommand_skipped
    [of "''file.close''" observedRegistry None None 7 closeCommand "\<lambda>u. False"]
  have b: "executeCommand ''file.close'' None None 7 observedRegistry =
     (Inr (), observedRegistry,
      [ConsoleWarn (''Command '' @ quoted ''file.close'' @ '' cannot be executed at this time'')])"
    by blast
  from observedRegistry_listeners a b show ?thesis by (intro conjI)
qed

subsection \<open>The execution history\<close>

lemma executeCommand_commands:
  "commands (fst (snd (executeCommand cid arg src now s))) = commands s"
  by (simp add: executeCommand_def Let_def split: option.splits sum.splits)

lemma executeCommand_history:
  "history (fst (snd (executeCommand cid arg src now s))) =
     (if callSucceeds s (cid, arg, src, now) then add (callContext (cid, arg, src, now)) (history s)
      else history s)"
  by (simp add: executeCommand_def guardPasses_def Let_def split: option.splits sum.splits)

lemma callSucceeds_commands:
  "commands s' = commands s \<Longrightarrow> callSucceeds s' c = callSucceeds s c"
  by (cases c) (simp add: get_def)

lemma addAll_Cons: "addAll (c # cs) h = addAll cs (add c h)"
  by (simp add: addAll_def)

lemma history_executeAll:
  "history (executeAll calls s) = addAll (executedContexts s calls) (history s)"
proof (induction calls arbitrary: s)
  case Nil
  show ?case by (simp add: executedContexts_def addAll_def)
next
  case (Cons c calls)
  obtain cid arg src now where c: "c = (cid, arg, src, now)" by (cases c)
  let ?s1 = "fst (snd (executeCommand cid arg src now s))"
  have same: "executedContexts ?s1 calls = executedContexts s calls"
  proof -
    have "callSucceeds ?s1 = callSucceeds s"
      by (rule ext) (rule callSucceeds_commands, rule executeCommand_commands)
    then show ?thesis by (simp add: executedContexts_def)
  qed
  have "history (executeAll (c # calls) s) = addAll (executedContexts s calls) (history ?s1)"
    using Cons.IH [of ?s1] by (simp add: c same)
  also have "\<dots> = addAll (executedContexts s (c # calls)) (history s)"
    by (simp add: executeCommand_history executedContexts_def addAll_Cons c)
  finally show ?case .
qed

lemma length_addAll:
  "length (entries h) \<le> maxEntries \<Longrightarrow> length (entries (addAll cs h)) \<le> maxEntries"
proof (induction cs arbitrary: h)
  case Nil
  then show ?case by (simp add: addAll_def)
next
  case (Cons c cs)
  have "length (entries (add c h)) \<le> maxEntries" by (simp add: entries_add)
  from Cons.IH [OF this] show ?case by (simp only: addAll_Cons)
qed

text \<open>
  C7. \<open>add\<close> puts the new record at the front and keeps the 100 newest; the history
  never holds more than 100 records, after one \<open>add\<close> to any history and after any
  sequence of \<open>add\<close>s to the empty one; and after the records \<open>cs\<close> were added in
  this order, \<open>getRecent n\<close> returns the \<open>n\<close> newest of them, newest first (all of the
  stored ones when fewer are stored). An execution that goes through adds its record
  with \<open>add\<close>; so after any run of executions the history is that of adding the records
  of the calls that went through, in their order: it holds at most 100 records, and from
  an empty history \<open>getRecent n\<close> returns the \<open>n\<close> most recent of these records, newest
  first.
\<close>

theorem history_ring_buffer:
  "entries (add c h) = take 100 (c # entries h) \<and>
   length (entries (add c h)) \<le> 100 \<and>
   length (entries (addAll cs emptyHistory)) \<le> 100 \<and>
   (0 \<le> n \<longrightarrow>
      getRecent (Some n) (addAll cs emptyHistory) = take (min (nat n) 100) (rev cs)) \<and>
   (0 \<le> n \<and> n \<le> 100 \<longrightarrow>
      getRecent (Some n) (addAll cs emptyHistory) = take (nat n) (rev cs)) \<and>
   (get cid s = Some command \<and> guardPasses command \<and> execute (action command) arg = Inr () \<longrightarrow>
      history (fst (snd (executeCommand cid arg src now s))) =
        add (callContext (cid, arg, src, now)) (history s)) \<and>
   history (executeAll calls s) = addAll (executedContexts s calls) (history s) \<and>
   (length (entries (history s)) \<le> 100 \<longrightarrow>
      length (entries (history (executeAll calls s))) \<le> 100) \<and>
   (history s = emptyHistory \<and> 0 \<le> n \<longrightarrow>
      getRecent (Some n) (history (executeAll calls s)) =
        take (min (nat n) 100) (rev (executedContexts s calls))) \<and>
   (history s = emptyHistory \<and> 0 \<le> n \<and> n \<le> 100 \<longrightarrow>
      getRecent (Some n) (history (executeAll calls s)) =
        take (nat n) (rev (executedContexts s calls)))"
proof -
  have a: "entries (add c h) = take 100 (c # entries h)"
    using entries_add [of c h] by (simp add: maxEntries_def)
  have b: "entries (addAll xs emptyHistory) = take 100 (rev xs)" for xs
    using entries_addAll_empty [of xs] by (simp add: maxEntries_def)
  have g: "getRecent (Some n) (addAll xs emptyHistory) = take (min (nat n) 100) (rev xs)"
    if "0 \<le> n" for xs
  proof -
    have "getRecent (Some n) (addAll xs emptyHistory) = slice 0 (int (nat n)) (take 100 (rev xs))"
      using that by (simp add: getRecent_def b)
    then show ?thesis by (simp only: slice_0_nat take_take)
  qed
  have g': "getRecent (Some n) (addAll xs emptyHistory) = take (nat n) (rev xs)"
    if "0 \<le> n" "n \<le> 100" for xs
    using g [OF that(1), of xs] that(2) by (simp add: min_def)
  have l1: "length (entries (add c h)) \<le> 100"
    unfolding a by simp
  have l2: "length (entries (addAll cs emptyHistory)) \<le> 100"
    unfolding b by simp
  have e1: "history (fst (snd (executeCommand cid arg src now s))) =
        add (callContext (cid, arg, src, now)) (history s)"
    if "get cid s = Some command \<and> guardPasses command \<and> execute (action command) arg = Inr ()"
  proof -
    from that have "callSucceeds s (cid, arg, src, now)" by simp
    then show ?thesis by (simp only: executeCommand_history if_True)
  qed
  have e2: "history (executeAll calls s) = addAll (executedContexts s calls) (history s)"
    by (rule history_executeAll)
  have e3: "length (entries (history (executeAll calls s))) \<le> 100"
    if "length (entries (history s)) \<le> 100"
    using that length_addAll [of "history s" "executedContexts s calls"]
    by (simp add: e2 maxEntries_def)
  have e4: "getRecent (Some n) (history (executeAll calls s)) =
        take (min (nat n) 100) (rev (executedContexts s calls))"
    if "history s = emptyHistory \<and> 0 \<le> n"
    using that g [of "executedContexts s calls"] by (simp add: e2)
  have e5: "getRecent (Some n) (history (executeAll calls s)) =
        take (nat n) (rev (executedContexts s calls))"
    if "history s = emptyHistory \<and> 0 \<le> n \<and> n \<le> 100"
    using that g' [of "executedContexts s calls"] by (simp add: e2)
  from a l1 l2 g [of cs] g' [of cs] e1 e2 e3 e4 e5 show ?thesis by blast
qed

theorem history_ring_buffer_witness:
  "(0::int) \<le> 5 \<and> (5::int) \<le> 100 \<and>
   length (entries (addAll (map sampleContext [0..<150]) emptyHistory)) \<le> 100 \<and>
   getRecent (Some 5) (addAll (map sampleContext [0..<150]) emptyHistory) =
     map sampleContext [149, 148, 147, 146, 145] \<and>
   history observedRegistry = emptyHistory \<and>
   length (entries (history (executeAll (map saveCall [0..<150]) observedRegistry))) \<le> 100 \<and>
   getRecent (Some 5) (history (executeAll (map saveCall [0..<150]) observedRegistry)) =
     map sampleContext [149, 148, 147, 146, 145] \<and>
   history (fst (snd (executeCommand ''file.save'' None (Some Palette) 3 observedRegistry))) =
     add (sampleContext 3) emptyHistory \<and>
   getRecent (Some 5) (history (executeAll mixedCalls observedRegistry)) =
     [\<lparr>commandId = ''file.save'', timestamp = 5, source = Programmatic, args = Some (JNum 7)\<rparr>,
      \<lparr>commandId = ''file.save'', timestamp = 1, source = Palette, args = None\<rparr>]"
proof -
  have r: "take (nat 5) (rev (map sampleContext [0..<150])) = map sampleContext [149, 148, 147, 146, 145]"
    by code_simp
  have h0: "history observedRegistry = emptyHistory"
    by (simp add: observedRegistry_def onCommandExecute_def has_def register_def
        emptyRegistry_def Let_def)
  have len0: "length (entries (history observedRegistry)) \<le> 100"
    by (simp add: h0 emptyHistory_def)
  have gs: "get ''file.save'' observedRegistry = Some saveCommand"
    and ge: "get ''file.export'' observedRegistry = Some exportCommand"
    and gp: "get ''file.print'' observedRegistry = None"
    and gc: "get ''file.close'' observedRegistry = Some closeCommand"
    by (simp_all add: get_def observedRegistry_commands)
  have ps: "guardPasses saveCommand"
    by (simp add: guardPasses_def saveCommand_def mkCommand_def noAction_def)
  have xs: "execute (action saveCommand) a = Inr ()" for a
    by (simp add: saveCommand_def mkCommand_def noAction_def)
  have xe: "execute (action exportCommand) a = Inl (Error ''disk full'')" for a
    by (simp add: exportCommand_def failingAction_def)
  have pc: "\<not> guardPasses closeCommand"
    by (simp add: guardPasses_def closeCommand_def guardedAction_def)
  have ok: "callSucceeds observedRegistry (''file.save'', a, b, t)" for a b t
    by (simp add: gs ps xs)
  have ctx: "callContext (saveCall k) = sampleContext k" for k
    by (simp add: saveCall_def sampleContext_def)
  have ok': "callSucceeds observedRegistry (saveCall k)" for k
    unfolding saveCall_def by (rule ok)
  have run: "executedContexts observedRegistry (map saveCall ks) = map sampleContext ks" for ks
    by (induction ks) (simp_all add: executedContexts_def ok' ctx)
  have mixed: "executedContexts observedRegistry mixedCalls =
     [\<lparr>commandId = ''file.save'', timestamp = 1, source = Palette, args = None\<rparr>,
      \<lparr>commandId = ''file.save'', timestamp = 5, source = Programmatic, args = Some (JNum 7)\<rparr>]"
    by (simp add: executedContexts_def mixedCalls_def saveCall_def gs ge gp gc ps xs xe pc)
  note t = history_ring_buffer [where c = "sampleContext 0" and h = emptyHistory
      and cs = "map sampleContext [0..<150]" and n = 5 and cid = "''file.save''"
      and s = observedRegistry and command = saveCommand and arg = None
      and src = "Some Palette" and now = 3 and calls = "map saveCall [0..<150]"]
  note u = history_ring_buffer [where c = "sampleContext 0" and h = emptyHistory
      and cs = "[]" and n = 5 and cid = "''file.save''"
      and s = observedRegistry and command = saveCommand and arg = None
      and src = "Some Palette" and now = 3 and calls = mixedCalls]
  from t have l: "length (entries (addAll (map sampleContext [0..<150]) emptyHistory)) \<le> 100"
    by blast
  have z: "(0::int) \<le> 5" "(5::int) \<le> 100" by simp_all
  from t z have "getRecent (Some 5) (addAll (map sampleContext [0..<150]) emptyHistory) =
      take (nat 5) (rev (map sampleContext [0..<150]))"
    by blast
  then have 1: "getRecent (Some 5) (addAll (map sampleContext [0..<150]) emptyHistory) =
      map sampleContext [149, 148, 147, 146, 145]"
    by (simp only: r)
  from t len0
  have 2: "length (entries (history (executeAll (map saveCall [0..<150]) observedRegistry))) \<le> 100"
    by blast
  from t h0 z have "getRecent (Some 5) (history (executeAll (map saveCall [0..<150]) observedRegistry)) =
      take (nat 5) (rev (executedContexts observedRegistry (map saveCall [0..<150])))"
    by blast
  then have 3: "getRecent (Some 5) (history (executeAll (map saveCall [0..<150]) observedRegistry)) =
      map sampleContext [149, 148, 147, 146, 145]"
    by (simp only: run r)
  from t gs ps xs [of None]
  have "history (fst (snd (executeCommand ''file.save'' None (Some Palette) 3 observedRegistry))) =
      add (callContext (''file.save'', None, Some Palette, 3)) (history observedRegistry)"
    by blast
  then have 4: "history (fst (snd (executeCommand ''file.save'' None (Some Palette) 3 observedRegistry))) =
      add (sampleContext 3) emptyHistory"
    by (simp add: h0 sampleContext_def)
  from u h0 z have "getRecent (Some 5) (history (executeAll mixedCalls observedRegistry)) =
      take (nat 5) (rev (executedContexts observedRegistry mixedCalls))"
    by blast
  then have 5: "getRecent (Some 5) (history (executeAll mixedCalls observedRegistry)) =
     [\<lparr>commandId = ''file.save'', timestamp = 5, source = Programmatic, args = Some (JNum 7)\<rparr>,
      \<lparr>commandId = ''file.save'', timestamp = 1, source = Palette, args = None\<rparr>]"
    by (simp add: mixed)
  from z l 1 h0 2 3 4 5 show ?thesis by (intro conjI)
qed

subsection \<open>Shortcuts of the registered commands\<close>

text \<open>
  C9. \<open>registerCommandShortcuts\<close> reads the commands through \<open>getAll\<close>, which leaves the
  hidden ones out: a registry whose only command is hidden and carries a keybinding
  yields no binding at all, although registering that shortcut directly succeeds.
\<close>

theorem registerCommandShortcuts_skips_hidden:
  "map_option cmd_id (get ''dev.reload'' hiddenRegistry) = Some ''dev.reload'' \<and>
   map_option keybinding (get ''dev.reload'' hiddenRegistry) = Some (Some ctrlS) \<and>
   registerCommandShortcuts hiddenRegistry emptyManager = (emptyManager, []) \<and>
   map fst (keyBindings (fst (registerShortcut ''dev.reload'' ctrlS None emptyManager))) = [''ctrl+s'']"
  by code_simp
subsection \<open>The two save commands\<close>

text \<open>
  C4, as stated, fails: with the two commands registered, the query \<open>save\<close> does not
  give both the score 80.
\<close>

theorem search_save_both_80_counterexample:
  "\<not> (map title (search (\<lambda>a b. 0) ''save'' saveRegistry) = [''Save'', ''Save As''] \<and>
      scoreCommand (trim (toLowerCase ''save'')) saveCommand = 80 \<and>
      scoreCommand (trim (toLowerCase ''save'')) saveAsCommand = 80)"
  by code_simp

text \<open>
  C4, amended. After registering exactly the two commands, \<open>search "save"\<close> returns
  \<open>Save\<close>, then \<open>Save As\<close>: the title \<open>Save\<close> equals the query (score 100), the title
  \<open>Save As\<close> starts with it (score 80), and the order is that of the scores, whatever
  \<open>localeCompare\<close> is.
\<close>

theorem search_save_order:
  "map cmd_id (map snd (commands saveRegistry)) = [''file.save'', ''file.saveAs''] \<and>
   map title (search lc ''save'' saveRegistry) = [''Save'', ''Save As''] \<and>
   scoreCommand (trim (toLowerCase ''save'')) saveCommand = 100 \<and>
   scoreCommand (trim (toLowerCase ''save'')) saveAsCommand = 80"
  by code_simp

subsection \<open>Facts about trimming and lower-casing\<close>

lemma of_char_toLowerChar:
  "(of_char (toLowerChar c) :: nat) =
     (if (65 \<le> (of_char c :: nat) \<and> (of_char c :: nat) \<le> 90) \<or>
         (192 \<le> (of_char c :: nat) \<and> (of_char c :: nat) \<le> 222 \<and> (of_char c :: nat) \<noteq> 215)
      then of_char c + 32 else of_char c)"
  by (auto simp: toLowerChar_def Let_def)

lemma isWhiteSpace_toLowerChar: "isWhiteSpace (toLowerChar c) = isWhiteSpace c"
  unfolding isWhiteSpace_def of_char_toLowerChar by auto

lemma toLowerChar_idem: "toLowerChar (toLowerChar c) = toLowerChar c"
proof -
  have "(of_char (toLowerChar (toLowerChar c)) :: nat) = of_char (toLowerChar c)"
    unfolding of_char_toLowerChar by auto
  then show ?thesis by simp
qed

lemma toLowerCase_idem: "toLowerCase (toLowerCase s) = toLowerCase s"
  by (simp add: toLowerCase_def toLowerChar_idem)

lemma dropWhile_ws_toLowerCase:
  "dropWhile isWhiteSpace (toLowerCase s) = toLowerCase (dropWhile isWhiteSpace s)"
  by (induction s) (simp_all add: toLowerCase_def isWhiteSpace_toLowerChar)

lemma trim_toLowerCase: "trim (toLowerCase s) = toLowerCase (trim s)"
proof -
  have r: "rev (toLowerCase s) = toLowerCase (rev s)" for s
    by (simp add: toLowerCase_def rev_map)
  show ?thesis
    unfolding trim_def by (simp only: dropWhile_ws_toLowerCase r)
qed

lemma toLowerCase_eq_Nil: "toLowerCase s = [] \<longleftrightarrow> s = []"
  by (simp add: toLowerCase_def)

lemma dropWhile_idem_hd: "dropWhile P (dropWhile P xs) = dropWhile P xs"
  by (induction xs) simp_all

lemma dropWhile_rev_dropWhile_aux:
  "ys = [] \<or> \<not> P (hd ys) \<Longrightarrow>
     dropWhile P (rev (dropWhile P (rev ys))) = rev (dropWhile P (rev ys))"
proof (induction ys rule: rev_induct)
  case Nil
  show ?case by simp
next
  case (snoc u us)
  show ?case
  proof (cases "P u")
    case True
    from snoc.prems have "us = [] \<or> \<not> P (hd us)" by (cases us) simp_all
    from snoc.IH [OF this] True show ?thesis by simp
  next
    case False
    from snoc.prems have "\<not> P (hd (us @ [u]))" by simp
    then have "dropWhile P (us @ [u]) = us @ [u]" by (cases "us @ [u]") simp_all
    with False show ?thesis by simp
  qed
qed

lemma dropWhile_rev_dropWhile:
  "dropWhile P (rev (dropWhile P (rev (dropWhile P xs)))) = rev (dropWhile P (rev (dropWhile P xs)))"
proof (rule dropWhile_rev_dropWhile_aux)
  show "dropWhile P xs = [] \<or> \<not> P (hd (dropWhile P xs))"
    by (metis hd_dropWhile)
qed

lemma trim_idem: "trim (trim s) = trim s"
proof -
  let ?t = "rev (dropWhile isWhiteSpace (rev (dropWhile isWhiteSpace s)))"
  have a: "dropWhile isWhiteSpace ?t = ?t" by (rule dropWhile_rev_dropWhile)
  have "trim (trim s) = rev (dropWhile isWhiteSpace (rev (dropWhile isWhiteSpace ?t)))"
    by (simp only: trim_def)
  also have "\<dots> = rev (dropWhile isWhiteSpace (dropWhile isWhiteSpace (rev (dropWhile isWhiteSpace s))))"
    by (simp only: a rev_rev_ident)
  also have "\<dots> = ?t" by (simp only: dropWhile_idem_hd)
  finally show ?thesis by (simp only: trim_def)
qed

lemma normalized_nonempty: "trim query \<noteq> [] \<Longrightarrow> trim (toLowerCase query) \<noteq> []"
  by (simp add: trim_toLowerCase toLowerCase_eq_Nil)

subsection \<open>Normalisation of the query\<close>

text \<open>
  C10. The result of \<open>search\<close> depends only on the trimmed, lowercased query: a query
  whose trimmed form is not empty gives the same list, in the same order, as its
  normal form \<open>toLowerCase (trim query)\<close>.
\<close>

theorem search_normalized_query:
  "trim query \<noteq> [] \<Longrightarrow> search lc query s = search lc (toLowerCase (trim query)) s"
proof -
  assume ne: "trim query \<noteq> []"
  have t: "trim (toLowerCase (trim query)) = toLowerCase (trim query)"
    by (simp only: trim_toLowerCase trim_idem)
  have n: "trim (toLowerCase (toLowerCase (trim query))) = trim (toLowerCase query)"
    by (simp only: toLowerCase_idem trim_toLowerCase trim_idem)
  from ne have ne': "trim (toLowerCase (trim query)) \<noteq> []"
    by (simp add: t toLowerCase_eq_Nil)
  show ?thesis
    unfolding search_def using ne ne' by (simp add: n)
qed

theorem search_normalized_query_witness:
  "trim ''  SaVe '' \<noteq> [] \<and> toLowerCase (trim ''  SaVe '') = ''save'' \<and>
   search (\<lambda>a b. 0) ''  SaVe '' saveRegistry = search (\<lambda>a b. 0) ''save'' saveRegistry \<and>
   map title (search (\<lambda>a b. 0) ''  SaVe '' saveRegistry) = [''Save'', ''Save As'']"
proof -
  have h: "trim ''  SaVe '' \<noteq> []" by code_simp
  have l: "toLowerCase (trim ''  SaVe '') = ''save''" by code_simp
  have r: "map title (search (\<lambda>a b. 0) ''save'' saveRegistry) = [''Save'', ''Save As'']"
    by code_simp
  from search_normalized_query [OF h, of "\<lambda>a b. 0" saveRegistry]
  have e: "search (\<lambda>a b. 0) ''  SaVe '' saveRegistry = search (\<lambda>a b. 0) ''save'' saveRegistry"
    by (simp only: l)
  from h l e r show ?thesis by simp
qed

subsection \<open>Facts about the stable sort\<close>

lemma mset_insertBy: "mset (insertBy cmp x xs) = add_mset x (mset xs)"
  by (induction xs) simp_all

lemma mset_arraySort: "mset (arraySort cmp xs) = mset xs"
  by (induction xs) (simp_all add: arraySort_def mset_insertBy)

lemma set_insertBy: "set (insertBy cmp x xs) = insert x (set xs)"
  by (induction xs) auto

lemma set_arraySort: "set (arraySort cmp xs) = set xs"
  by (induction xs) (simp_all add: arraySort_def set_insertBy)

lemma sorted_insertBy:
  assumes total: "\<And>a b. 0 < cmp a b \<Longrightarrow> cmp b a \<le> 0"
    and trans: "\<And>a b c. cmp a b \<le> 0 \<Longrightarrow> cmp b c \<le> 0 \<Longrightarrow> cmp a c \<le> 0"
    and sorted: "sorted_wrt (\<lambda>a b. cmp a b \<le> 0) xs"
  shows "sorted_wrt (\<lambda>a b. cmp a b \<le> 0) (insertBy cmp x xs)"
  using sorted
proof (induction xs)
  case Nil
  show ?case by simp
next
  case (Cons y ys)
  show ?case
  proof (cases "cmp x y \<le> 0")
    case True
    have "cmp x z \<le> 0" if "z \<in> set ys" for z
    proof -
      from Cons.prems that have "cmp y z \<le> 0" by simp
      with True show ?thesis by (rule trans)
    qed
    with True Cons.prems show ?thesis by simp
  next
    case False
    then have "cmp y x \<le> 0" using total [of x y] by simp
    moreover from Cons.prems have "sorted_wrt (\<lambda>a b. cmp a b \<le> 0) ys" by simp
    then have "sorted_wrt (\<lambda>a b. cmp a b \<le> 0) (insertBy cmp x ys)" by (rule Cons.IH)
    ultimately show ?thesis using False Cons.prems by (simp add: set_insertBy)
  qed
qed

lemma sorted_arraySort:
  assumes total: "\<And>a b. 0 < cmp a b \<Longrightarrow> cmp b a \<le> 0"
    and trans: "\<And>a b c. cmp a b \<le> 0 \<Longrightarrow> cmp b c \<le> 0 \<Longrightarrow> cmp a c \<le> 0"
  shows "sorted_wrt (\<lambda>a b. cmp a b \<le> 0) (arraySort cmp xs)"
proof (induction xs)
  case Nil
  show ?case by (simp add: arraySort_def)
next
  case (Cons x xs)
  have "arraySort cmp (x # xs) = insertBy cmp x (arraySort cmp xs)"
    by (simp add: arraySort_def)
  with sorted_insertBy [of cmp "arraySort cmp xs" x, OF total trans Cons.IH]
  show ?case by simp
qed

subsection \<open>Facts about the fuzzy walk\<close>

lemma fuzzyWalk_subseq:
  "queryIndex \<le> length query \<Longrightarrow> fuzzyWalk query ts queryIndex score = (score', queryIndex') \<Longrightarrow>
     score' + queryIndex = score + queryIndex' \<and> queryIndex \<le> queryIndex' \<and>
     queryIndex' \<le> length query \<and>
     (queryIndex' = length query \<longleftrightarrow> subseq (drop queryIndex query) ts)"
proof (induction ts arbitrary: queryIndex score)
  case Nil
  then show ?case by (auto dest!: list_emb_Nil2)
next
  case (Cons t ts)
  show ?case
  proof (cases "queryIndex < length query")
    case False
    with Cons.prems show ?thesis by simp
  next
    case True
    then have d: "drop queryIndex query = query ! queryIndex # drop (Suc queryIndex) query"
      by (simp add: Cons_nth_drop_Suc)
    show ?thesis
    proof (cases "t = query ! queryIndex")
      case True
      with \<open>queryIndex < length query\<close> Cons.prems(2)
      have w: "fuzzyWalk query ts (Suc queryIndex) (Suc score) = (score', queryIndex')" by simp
      from \<open>queryIndex < length query\<close> have "Suc queryIndex \<le> length query" by simp
      from Cons.IH [OF this w] True d show ?thesis by simp
    next
      case False
      with \<open>queryIndex < length query\<close> Cons.prems(2)
      have w: "fuzzyWalk query ts queryIndex score = (score', queryIndex')" by simp
      from Cons.IH [OF Cons.prems(1) w] False d show ?thesis by (simp add: subseq_Cons2_iff)
    qed
  qed
qed

lemma calculateFuzzyScore_subseq:
  "calculateFuzzyScore query text =
     (if subseq query text then of_nat (length query) / of_nat (length text) else 0)"
proof -
  obtain score' queryIndex' where w: "fuzzyWalk query text 0 0 = (score', queryIndex')"
    by (cases "fuzzyWalk query text 0 0")
  from fuzzyWalk_subseq [OF _ w]
  have "score' = queryIndex'" and "queryIndex' = length query \<longleftrightarrow> subseq query text"
    by simp_all
  with w show ?thesis by (simp add: calculateFuzzyScore_def)
qed

subsection \<open>Facts about the scoring loop\<close>

lemma sublist_Nil_right_iff: "sublist q [] \<longleftrightarrow> q = []"
  by simp

lemma scoreCommand_finalScore: "q \<noteq> [] \<Longrightarrow> scoreCommand q c = finalScore q c"
  by (auto simp: scoreCommand_def finalScore_def ruleScore_def titleScore_def bonusScore_def
      fuzzyPass_def startsWith_def includesStr_def Let_def split: option.splits)

lemma searchLoop_filter:
  "searchLoop q cs =
     map (\<lambda>c. (c, scoreCommand q c))
       (filter (\<lambda>c. 0 < scoreCommand q c) (filter (\<lambda>c. \<not> isHidden c) cs))"
  by (induction cs) (simp_all add: Let_def)

lemma search_nonempty:
  "trim query \<noteq> [] \<Longrightarrow>
     search lc query s =
       map fst (arraySort (searchCompare lc)
         (map (\<lambda>c. (c, scoreCommand (trim (toLowerCase query)) c))
            (filter (\<lambda>c. 0 < scoreCommand (trim (toLowerCase query)) c) (visibleCommands s))))"
  by (simp add: search_def Let_def searchLoop_filter visibleCommands_def)

lemma mset_search:
  assumes "trim query \<noteq> []"
  shows "mset (search lc query s) =
     mset (filter (\<lambda>c. 0 < scoreCommand (trim (toLowerCase query)) c) (visibleCommands s))"
proof -
  let ?ys = "filter (\<lambda>c. 0 < scoreCommand (trim (toLowerCase query)) c) (visibleCommands s)"
  let ?f = "\<lambda>c. (c, scoreCommand (trim (toLowerCase query)) c)"
  have "mset (search lc query s) = image_mset fst (mset (arraySort (searchCompare lc) (map ?f ?ys)))"
    using assms by (simp add: search_nonempty)
  also have "\<dots> = image_mset fst (mset (map ?f ?ys))"
    by (simp only: mset_arraySort)
  also have "\<dots> = mset (map fst (map ?f ?ys))"
    by (simp only: mset_map)
  also have "map fst (map ?f ?ys) = ?ys"
    by (simp add: comp_def)
  finally show ?thesis .
qed

lemma searchCompare_total:
  assumes "consistentCompare lc" "0 < searchCompare lc a b"
  shows "searchCompare lc b a \<le> 0"
proof -
  from assms(1) have t: "\<And>x y. 0 < lc x y \<Longrightarrow> lc y x \<le> 0"
    by (simp add: consistentCompare_def)
  show ?thesis
  proof (cases "snd a \<noteq> snd b")
    case True
    with assms(2) show ?thesis by (simp add: searchCompare_def)
  next
    case False
    note s = this
    show ?thesis
    proof (cases "priorityOr0 (fst a) \<noteq> priorityOr0 (fst b)")
      case True
      with s assms(2) show ?thesis by (simp add: searchCompare_def)
    next
      case False
      with s assms(2) have "0 < lc (title (fst a)) (title (fst b))"
        by (simp add: searchCompare_def)
      then have "lc (title (fst b)) (title (fst a)) \<le> 0" by (rule t)
      with s False show ?thesis by (simp add: searchCompare_def)
    qed
  qed
qed

lemma searchCompare_le_iff:
  "searchCompare lc a b \<le> 0 \<longleftrightarrow>
     snd b < snd a \<or>
     (snd a = snd b \<and>
      (priorityOr0 (fst b) < priorityOr0 (fst a) \<or>
       (priorityOr0 (fst a) = priorityOr0 (fst b) \<and> lc (title (fst a)) (title (fst b)) \<le> 0)))"
  by (auto simp: searchCompare_def)

lemma searchCompare_trans:
  assumes c: "consistentCompare lc"
    and ab: "searchCompare lc a b \<le> 0" and bc: "searchCompare lc b c \<le> 0"
  shows "searchCompare lc a c \<le> 0"
proof -
  from c have t: "\<And>x y z. lc x y \<le> 0 \<Longrightarrow> lc y z \<le> 0 \<Longrightarrow> lc x z \<le> 0"
    unfolding consistentCompare_def by blast
  from ab bc show ?thesis
    unfolding searchCompare_le_iff using t [of "title (fst a)" "title (fst b)" "title (fst c)"]
    by auto
qed

lemma sorted_search:
  assumes ne: "trim query \<noteq> []" and c: "consistentCompare lc"
  shows "sorted_wrt (rankedBefore lc (trim (toLowerCase query))) (search lc query s)"
proof -
  let ?q = "trim (toLowerCase query)"
  let ?ys = "filter (\<lambda>c. 0 < scoreCommand ?q c) (visibleCommands s)"
  let ?f = "\<lambda>c. (c, scoreCommand ?q c)"
  let ?rs = "arraySort (searchCompare lc) (map ?f ?ys)"
  from ne have q: "?q \<noteq> []" by (rule normalized_nonempty)
  have sorted: "sorted_wrt (\<lambda>a b. searchCompare lc a b \<le> 0) ?rs"
  proof (rule sorted_arraySort)
    fix a b :: "Command \<times> int"
    assume "0 < searchCompare lc a b"
    with c show "searchCompare lc b a \<le> 0" by (rule searchCompare_total)
  next
    fix a b d :: "Command \<times> int"
    assume "searchCompare lc a b \<le> 0" "searchCompare lc b d \<le> 0"
    with c show "searchCompare lc a d \<le> 0" by (rule searchCompare_trans)
  qed
  have scores: "snd p = finalScore ?q (fst p)" if "p \<in> set ?rs" for p
  proof -
    from that have "p \<in> set (map ?f ?ys)" by (simp only: set_arraySort)
    then show ?thesis using q by (auto simp: scoreCommand_finalScore)
  qed
  have "sorted_wrt (\<lambda>a b. rankedBefore lc ?q (fst a) (fst b)) ?rs"
  proof (rule sorted_wrt_mono_rel [OF _ sorted])
    fix a b
    assume "a \<in> set ?rs" "b \<in> set ?rs" "searchCompare lc a b \<le> 0"
    then show "rankedBefore lc ?q (fst a) (fst b)"
      unfolding searchCompare_le_iff rankedBefore_def by (simp add: scores)
  qed
  then have "sorted_wrt (rankedBefore lc ?q) (map fst ?rs)"
    by (simp only: sorted_wrt_map)
  then show ?thesis by (simp only: search_nonempty [OF ne])
qed

subsection \<open>Ranked search\<close>

lemma consistent_codeUnitCompare: "consistentCompare codeUnitCompare"
  by (auto simp: consistentCompare_def codeUnitCompare_def split: if_splits)

text \<open>
  C1. For an empty or whitespace-only query \<open>search\<close> returns \<open>getAll\<close>. Otherwise, with
  \<open>q\<close> the trimmed lowercased query, the loop gives every command the score of the
  specification (100, 80 or 60 for the title, plus 40, 30 and 20 for description,
  keywords and category, and the fuzzy pass when these give nothing); the result holds
  exactly the non-hidden commands with a positive score; and it is ordered by descending
  score, then descending priority (a missing priority counting as 0), then by the titles
  under \<open>localeCompare\<close>, provided that \<open>localeCompare\<close> is a consistent comparator.
\<close>

theorem search_ranking:
  "(trim query = [] \<longrightarrow> search lc query s = getAll s) \<and>
   (trim query \<noteq> [] \<longrightarrow>
      (\<forall>c. scoreCommand (trim (toLowerCase query)) c = finalScore (trim (toLowerCase query)) c) \<and>
      mset (search lc query s) =
        mset (filter (\<lambda>c. 0 < finalScore (trim (toLowerCase query)) c) (visibleCommands s)) \<and>
      (consistentCompare lc \<longrightarrow>
         sorted_wrt (rankedBefore lc (trim (toLowerCase query))) (search lc query s)))"
proof (intro conjI impI allI)
  assume "trim query = []"
  then show "search lc query s = getAll s" by (simp add: search_def)
next
  fix c
  assume "trim query \<noteq> []"
  then have "trim (toLowerCase query) \<noteq> []" by (rule normalized_nonempty)
  then show "scoreCommand (trim (toLowerCase query)) c = finalScore (trim (toLowerCase query)) c"
    by (rule scoreCommand_finalScore)
next
  assume ne: "trim query \<noteq> []"
  then have "trim (toLowerCase query) \<noteq> []" by (rule normalized_nonempty)
  then have "scoreCommand (trim (toLowerCase query)) = finalScore (trim (toLowerCase query))"
    by (auto simp: scoreCommand_finalScore)
  with mset_search [OF ne, of lc s]
  show "mset (search lc query s) =
      mset (filter (\<lambda>c. 0 < finalScore (trim (toLowerCase query)) c) (visibleCommands s))"
    by simp
next
  assume "trim query \<noteq> []" "consistentCompare lc"
  then show "sorted_wrt (rankedBefore lc (trim (toLowerCase query))) (search lc query s)"
    by (rule sorted_search)
qed

theorem search_ranking_witness:
  "trim '' '' = [] \<and> search codeUnitCompare '' '' paletteRegistry = getAll paletteRegistry \<and>
   trim '' Save '' \<noteq> [] \<and> consistentCompare codeUnitCompare \<and>
   mset (search codeUnitCompare '' Save '' paletteRegistry) =
     mset (filter (\<lambda>c. 0 < finalScore ''save'' c) (visibleCommands paletteRegistry)) \<and>
   sorted_wrt (rankedBefore codeUnitCompare ''save'') (search codeUnitCompare '' Save '' paletteRegistry) \<and>
   map title (search codeUnitCompare '' Save '' paletteRegistry) =
     [''Autosave'', ''Save'', ''Save All'', ''Save As''] \<and>
   map (finalScore ''save'') (search codeUnitCompare '' Save '' paletteRegistry) = [130, 100, 80, 80] \<and>
   map title (getAll paletteRegistry) = [''Save'', ''Open'', ''Save As'', ''Save All'', ''Autosave'']"
proof -
  have e: "trim '' '' = []" by code_simp
  have ne: "trim '' Save '' \<noteq> []" by code_simp
  have q: "trim (toLowerCase '' Save '') = ''save''" by code_simp
  have t: "map title (search codeUnitCompare '' Save '' paletteRegistry) =
     [''Autosave'', ''Save'', ''Save All'', ''Save As'']" by code_simp
  have f: "map (finalScore ''save'') (search codeUnitCompare '' Save '' paletteRegistry) =
     [130, 100, 80, 80]" by code_simp
  have g: "map title (getAll paletteRegistry) =
     [''Save'', ''Open'', ''Save As'', ''Save All'', ''Autosave'']" by code_simp
  note a = search_ranking [of "'' ''" codeUnitCompare paletteRegistry]
  note b = search_ranking [of "'' Save ''" codeUnitCompare paletteRegistry, unfolded q]
  from a e have 1: "search codeUnitCompare '' '' paletteRegistry = getAll paletteRegistry"
    by blast
  from b ne have 2: "mset (search codeUnitCompare '' Save '' paletteRegistry) =
     mset (filter (\<lambda>c. 0 < finalScore ''save'' c) (visibleCommands paletteRegistry))"
    by blast
  from b ne consistent_codeUnitCompare
  have 3: "sorted_wrt (rankedBefore codeUnitCompare ''save'')
     (search codeUnitCompare '' Save '' paletteRegistry)"
    by blast
  from e ne consistent_codeUnitCompare 1 2 3 t f g show ?thesis by (intro conjI)
qed

subsection \<open>The fuzzy pass\<close>

lemma set_search:
  "trim query \<noteq> [] \<Longrightarrow>
     set (search lc query s) =
       {c \<in> set (visibleCommands s). 0 < scoreCommand (trim (toLowerCase query)) c}"
proof -
  assume "trim query \<noteq> []"
  from mset_search [OF this, of lc s]
  have "set_mset (mset (search lc query s)) =
      set_mset (mset (filter (\<lambda>c. 0 < scoreCommand (trim (toLowerCase query)) c) (visibleCommands s)))"
    by (rule arg_cong)
  then show ?thesis by simp
qed

lemma fuzzyPass_subseq:
  fixes q :: string
  assumes "ruleScore q c = 0"
  shows "finalScore q c =
     (if subseq q (toLowerCase (title c)) \<and>
         1 / 2 < (of_nat (length q) / of_nat (length (toLowerCase (title c))) :: rat)
      then \<lfloor>(of_nat (length q) / of_nat (length (toLowerCase (title c))) :: rat) * 20\<rfloor>
      else 0)"
  using assms by (simp add: finalScore_def fuzzyPass_def calculateFuzzyScore_subseq Let_def)

lemma floor_raw_positive: "1 / 2 < (r :: rat) \<Longrightarrow> 0 < \<lfloor>r * 20\<rfloor>"
proof -
  assume "1 / 2 < r"
  then have "1 \<le> r * 20" by simp
  then have "1 \<le> \<lfloor>r * 20\<rfloor>" by (simp add: le_floor_iff)
  then show ?thesis by simp
qed

text \<open>
  C2. For a non-hidden command that the title, description, keywords and category rules
  give the score 0: the greedy walk matches every character of the query exactly when
  the query is a subsequence of the lowercased title, and then the raw score is the
  length of the query (the number of matched characters) divided by the length of the
  title; the command is in the result, with the score \<open>\<lfloor>rawScore * 20\<rfloor>\<close>, exactly when
  the walk succeeds with a raw score above one half. For the query \<open>svf\<close> and the title
  \<open>Save File\<close> the raw score is \<open>1/3\<close> and the command is not in the result.
\<close>

theorem fuzzy_pass:
  assumes ne: "trim query \<noteq> []"
    and vis: "c \<in> set (visibleCommands s)"
    and zero: "ruleScore (trim (toLowerCase query)) c = 0"
  shows
    "(let q = trim (toLowerCase query); t = toLowerCase (title c);
          rawScore = (of_nat (length q) / of_nat (length t) :: rat)
      in fst (fuzzyWalk q t 0 0) = snd (fuzzyWalk q t 0 0) \<and>
         (snd (fuzzyWalk q t 0 0) = length q \<longleftrightarrow> subseq q t) \<and>
         calculateFuzzyScore q t = (if subseq q t then rawScore else 0) \<and>
         (subseq q t \<and> 1 / 2 < rawScore \<longrightarrow>
            c \<in> set (search lc query s) \<and> scoreCommand q c = \<lfloor>rawScore * 20\<rfloor>) \<and>
         (\<not> (subseq q t \<and> 1 / 2 < rawScore) \<longrightarrow> c \<notin> set (search lc query s)) \<and>
         (q = ''svf'' \<and> title c = ''Save File'' \<longrightarrow>
            calculateFuzzyScore q t = 1 / 3 \<and> c \<notin> set (search lc query s)))"
proof -
  let ?q = "trim (toLowerCase query)"
  let ?t = "toLowerCase (title c)"
  let ?raw = "of_nat (length ?q) / of_nat (length ?t) :: rat"
  from ne have q: "?q \<noteq> []" by (rule normalized_nonempty)
  obtain sc qi where w: "fuzzyWalk ?q ?t 0 0 = (sc, qi)"
    by (cases "fuzzyWalk ?q ?t 0 0")
  from fuzzyWalk_subseq [OF _ w] have walk: "sc = qi" "qi = length ?q \<longleftrightarrow> subseq ?q ?t"
    by simp_all
  have score: "scoreCommand ?q c = (if subseq ?q ?t \<and> 1 / 2 < ?raw then \<lfloor>?raw * 20\<rfloor> else 0)"
    using scoreCommand_finalScore [OF q, of c] fuzzyPass_subseq [OF zero] by simp
  have mem: "c \<in> set (search lc query s) \<longleftrightarrow> 0 < scoreCommand ?q c"
    using vis by (simp add: set_search [OF ne])
  have pos: "c \<in> set (search lc query s) \<and> scoreCommand ?q c = \<lfloor>?raw * 20\<rfloor>"
    if "subseq ?q ?t \<and> 1 / 2 < ?raw"
  proof -
    have v: "scoreCommand ?q c = \<lfloor>?raw * 20\<rfloor>"
      unfolding score using that by (rule if_P)
    from that have "0 < \<lfloor>?raw * 20\<rfloor>" by (intro floor_raw_positive) (rule conjunct2)
    with v mem show ?thesis by (simp only: simp_thms)
  qed
  have neg: "c \<notin> set (search lc query s)" if "\<not> (subseq ?q ?t \<and> 1 / 2 < ?raw)"
  proof -
    have "scoreCommand ?q c = 0"
      unfolding score using that by (rule if_not_P)
    with mem show ?thesis by (simp only: less_irrefl simp_thms)
  qed
  have svf: "calculateFuzzyScore ?q ?t = 1 / 3 \<and> c \<notin> set (search lc query s)"
    if "?q = ''svf'' \<and> title c = ''Save File''"
  proof -
    have l: "toLowerCase ''Save File'' = ''save file''" by code_simp
    from that have q': "?q = ''svf''" and t: "?t = ''save file''" by (simp_all only: l)
    have f: "calculateFuzzyScore ''svf'' ''save file'' = 1 / 3" by code_simp
    have n: "\<not> 1 / 2 < (of_nat (length ''svf'') / of_nat (length ''save file'') :: rat)"
      by simp
    have "\<not> (subseq ?q ?t \<and> 1 / 2 < ?raw)"
      unfolding q' t using n by (rule contrapos_nn) (rule conjunct2)
    then have "c \<notin> set (search lc query s)" by (rule neg)
    moreover have "calculateFuzzyScore ?q ?t = 1 / 3" unfolding q' t by (rule f)
    ultimately show ?thesis by (intro conjI)
  qed
  have c1: "fst (fuzzyWalk ?q ?t 0 0) = snd (fuzzyWalk ?q ?t 0 0)"
    using w walk by simp
  have c2: "snd (fuzzyWalk ?q ?t 0 0) = length ?q \<longleftrightarrow> subseq ?q ?t"
    using w walk by simp
  have c3: "calculateFuzzyScore ?q ?t = (if subseq ?q ?t then ?raw else 0)"
    by (rule calculateFuzzyScore_subseq)
  show ?thesis
    unfolding Let_def using c1 c2 c3 pos neg svf by blast
qed
theorem fuzzy_pass_witness:
  "trim ''svf'' \<noteq> [] \<and> saveFileCommand \<in> set (visibleCommands fuzzyRegistry) \<and>
   ruleScore ''svf'' saveFileCommand = 0 \<and>
   calculateFuzzyScore ''svf'' ''save file'' = 1 / 3 \<and>
   saveFileCommand \<notin> set (search codeUnitCompare ''svf'' fuzzyRegistry) \<and>
   search codeUnitCompare ''svf'' fuzzyRegistry = [] \<and>
   ruleScore ''opn'' openCommand = 0 \<and> subseq ''opn'' ''open'' \<and>
   openCommand \<in> set (search codeUnitCompare '' OPN'' fuzzyRegistry) \<and>
   scoreCommand ''opn'' openCommand = 15"
proof -
  have vs: "visibleCommands fuzzyRegistry = [saveFileCommand, openCommand]"
    by (simp add: visibleCommands_def fuzzyRegistry_def register_def has_def emptyRegistry_def
        Let_def isHidden_def saveFileCommand_def openCommand_def mkCommand_def)
  have v1: "saveFileCommand \<in> set (visibleCommands fuzzyRegistry)"
    and v2: "openCommand \<in> set (visibleCommands fuzzyRegistry)"
    by (simp_all only: vs list.set insertI1 insertI2)
  have n1: "trim ''svf'' \<noteq> []" and n2: "trim '' OPN'' \<noteq> []" by code_simp+
  have q1: "trim (toLowerCase ''svf'') = ''svf''" and q2: "trim (toLowerCase '' OPN'') = ''opn''"
    by code_simp+
  have z1: "ruleScore ''svf'' saveFileCommand = 0" and z2: "ruleScore ''opn'' openCommand = 0"
    by code_simp+
  have t1: "title saveFileCommand = ''Save File''" and t2: "toLowerCase (title openCommand) = ''open''"
    by code_simp+
  have e: "search codeUnitCompare ''svf'' fuzzyRegistry = []"
  proof -
    have "map title (search codeUnitCompare ''svf'' fuzzyRegistry) = []" by code_simp
    then show ?thesis by simp
  qed
  have sub: "subseq ''opn'' ''open''" by code_simp
  have half: "1 / 2 < (of_nat (length ''opn'') / of_nat (length ''open'') :: rat)" by simp
  have fl: "\<lfloor>(of_nat (length ''opn'') / of_nat (length ''open'') :: rat) * 20\<rfloor> = 15" by code_simp
  note a = fuzzy_pass [of "''svf''" saveFileCommand fuzzyRegistry codeUnitCompare,
      unfolded q1 Let_def, OF n1 v1 z1]
  note b = fuzzy_pass [of "'' OPN''" openCommand fuzzyRegistry codeUnitCompare,
      unfolded q2 t2 Let_def, OF n2 v2 z2]
  from a t1 have 1: "calculateFuzzyScore ''svf'' (toLowerCase (title saveFileCommand)) = 1 / 3"
    and 2: "saveFileCommand \<notin> set (search codeUnitCompare ''svf'' fuzzyRegistry)"
    by blast+
  have l: "toLowerCase (title saveFileCommand) = ''save file''" by code_simp
  from b sub half
  have 3: "openCommand \<in> set (search codeUnitCompare '' OPN'' fuzzyRegistry)"
    and 4: "scoreCommand ''opn'' openCommand =
      \<lfloor>(of_nat (length ''opn'') / of_nat (length ''open'') :: rat) * 20\<rfloor>"
    by blast+
  from n1 v1 z1 1 [unfolded l] 2 e z2 sub 3 4 [unfolded fl] show ?thesis by (intro conjI)
qed

end
